theory Spec2Isabelle
  imports Main
begin

section \<open>Syntax trees\<close>

text \<open>
  The checker works on the trees of Python's \<^verbatim>\<open>ast\<close> module. Only four node classes are
  told apart by the code (\<^verbatim>\<open>Name\<close>, \<^verbatim>\<open>Attribute\<close>, \<^verbatim>\<open>ClassDef\<close>, \<^verbatim>\<open>Assign\<close>); every other
  class is treated alike by \<^verbatim>\<open>NodeVisitor.generic_visit\<close>, which walks the child nodes in
  field order. A node of any other class is \<open>Node cls children\<close>: its class name and its
  child nodes in field order (a module is \<open>Node ''Module'' body\<close>, a call
  \<open>Node ''Call'' (func # args)\<close>). The fields kept are the ones the code reads:
  \<^verbatim>\<open>Name.id\<close>; \<^verbatim>\<open>Attribute.value\<close>, \<^verbatim>\<open>.attr\<close>, \<^verbatim>\<open>.lineno\<close>; \<^verbatim>\<open>ClassDef.name\<close>, \<^verbatim>\<open>.bases\<close>,
  \<^verbatim>\<open>.keywords\<close>, \<^verbatim>\<open>.body\<close>, \<^verbatim>\<open>.decorator_list\<close>; \<^verbatim>\<open>Assign.targets\<close>, \<^verbatim>\<open>.value\<close>. The expression
  context (\<^verbatim>\<open>ctx\<close>) of a name or attribute is a leaf that no visitor method looks at, so
  it is left out.
\<close>

datatype node =
    is_Name: Name (name_id: string)
  | is_Attribute: Attribute (attr_value: node) (attr: string) (lineno: int)
  | is_ClassDef: ClassDef (class_name: string) (class_bases: "node list")
      (class_keywords: "node list") (class_body: "node list") (decorator_list: "node list")
  | is_Assign: Assign (targets: "node list") (assign_value: node)
  | Node string "node list"


text \<open>
  The number of levels of a tree. A visit that goes into every child nests one call of
  \<^verbatim>\<open>visit\<close> for each level.
\<close>

fun tree_depth :: "node \<Rightarrow> nat"
  and tree_depth_each :: "node list \<Rightarrow> nat" where
  "tree_depth (Name i) = 1"
| "tree_depth (Attribute v a l) = Suc (tree_depth_each [v])"
| "tree_depth (ClassDef n bs ks b ds) = Suc (tree_depth_each (bs @ ks @ b @ ds))"
| "tree_depth (Assign ts v) = Suc (tree_depth_each (ts @ [v]))"
| "tree_depth (Node c ns) = Suc (tree_depth_each ns)"
| "tree_depth_each [] = 0"
| "tree_depth_each (x # xs) = max (tree_depth x) (tree_depth_each xs)"

section \<open>Errors and the registry\<close>

text \<open>
  The two exception classes of the module, and the built-in exceptions that reach its
  code: \<^verbatim>\<open>SyntaxError\<close> from \<^verbatim>\<open>ast.parse\<close> (which can also raise \<^verbatim>\<open>ValueError\<close>, on a text with
  a null byte, and \<^verbatim>\<open>RecursionError\<close>), \<^verbatim>\<open>IndexError\<close> from list indexing, \<^verbatim>\<open>ValueError\<close> from
  \<^verbatim>\<open>str.split\<close> with an empty separator, \<^verbatim>\<open>RecursionError\<close> from a visit nested deeper than
  the interpreter's call stack allows.
\<close>

datatype error =
    DuplicateEnumClassError string
  | DuplicateEnumItemError string
  | SyntaxError
  | IndexError
  | ValueError
  | RecursionError

text \<open>
  The two visitors recurse on the tree: \<^verbatim>\<open>visit\<close> calls \<^verbatim>\<open>visit_ClassDef\<close>,
  \<^verbatim>\<open>visit_Attribute\<close> or \<^verbatim>\<open>generic_visit\<close>, which call \<^verbatim>\<open>visit\<close> on the child nodes. Nothing
  else in the module recurses. The interpreter raises \<^verbatim>\<open>RecursionError\<close> in the call that
  would make the stack deeper than its limit. How many frames a nested visit takes
  belongs to the interpreter, so the limit is a parameter counted in visits: \<open>room\<close> is
  the number of nested calls of \<^verbatim>\<open>visit\<close> the stack has room for where a visit is called.
\<close>

text \<open>\<^verbatim>\<open>Dict[str, Set[str]]\<close>: class name to member names.\<close>

type_synonym enumdata = "string \<rightharpoonup> string set"

section \<open>Declaration scanner\<close>

text \<open>
  \<^verbatim>\<open>is_enum_class\<close>: false on anything that is not a \<^verbatim>\<open>ClassDef\<close>; otherwise whether some
  base is a \<^verbatim>\<open>Name\<close> whose id is \<^verbatim>\<open>"Enum"\<close>.
\<close>

fun is_enum_class :: "node \<Rightarrow> bool" where
  "is_enum_class (ClassDef n bs ks b ds) =
     list_ex (\<lambda>base. is_Name base \<and> name_id base = ''Enum'') bs"
| "is_enum_class _ = False"

text \<open>
  \<^verbatim>\<open>collections.Counter(names)\<close> as an association list in insertion order (a dict keeps
  the order in which keys were first inserted): counting one more occurrence of \<open>x\<close>.
\<close>

fun counter_add :: "(string \<times> nat) list \<Rightarrow> string \<Rightarrow> (string \<times> nat) list" where
  "counter_add [] x = [(x, 1)]"
| "counter_add ((k, c) # kcs) x =
     (if k = x then (k, Suc c) # kcs else (k, c) # counter_add kcs x)"

definition Counter :: "string list \<Rightarrow> (string \<times> nat) list" where
  "Counter names = foldl counter_add [] names"

text \<open>The loop of \<^verbatim>\<open>detect_duplicates\<close> over \<^verbatim>\<open>counts.items()\<close>.\<close>

fun detect_duplicates_items :: "(string \<times> nat) list \<Rightarrow> error + unit" where
  "detect_duplicates_items [] = Inr ()"
| "detect_duplicates_items ((name, count) # rest) =
     (if count > 1 then Inl (DuplicateEnumItemError name) else detect_duplicates_items rest)"

definition detect_duplicates :: "string list \<Rightarrow> error + unit" where
  "detect_duplicates names = detect_duplicates_items (Counter names)"

text \<open>
  \<^verbatim>\<open>assignment_names\<close>. The three comprehensions: the \<^verbatim>\<open>Assign\<close> statements of the body, the
  chain of their target lists, the ids of the targets that are \<^verbatim>\<open>Name\<close>s.
\<close>

definition assignment_targets :: "node list \<Rightarrow> node list" where
  "assignment_targets stmts = concat (map targets (filter is_Assign stmts))"

definition target_names :: "node list \<Rightarrow> string list" where
  "target_names stmts = map name_id (filter is_Name (assignment_targets stmts))"

text \<open>
  The function reads one field of its argument, \<^verbatim>\<open>node.body\<close>. Its parameter is annotated
  \<^verbatim>\<open>ast.ClassDef\<close> and its only caller, \<^verbatim>\<open>visit_ClassDef\<close>, passes a class declaration, so
  the model reads the field with the selector \<open>class_body\<close> and says nothing about a
  node of another class.
\<close>

definition assignment_names :: "node \<Rightarrow> error + string set" where
  "assignment_names node =
     (let names = target_names (class_body node) in
      case detect_duplicates names of
        Inl e \<Rightarrow> Inl e
      | Inr _ \<Rightarrow> Inr (set names))"

text \<open>
  What the specification calls the members of a class body, read off the statements
  themselves and not through the comprehensions above: a target contributes its
  identifier when it is a plain identifier and nothing otherwise; a statement contributes
  the identifiers of its targets, in order, when it is an assignment and nothing
  otherwise; a body contributes what its direct statements do, in order.
\<close>

fun target_identifier :: "node \<Rightarrow> string list" where
  "target_identifier (Name x) = [x]"
| "target_identifier _ = []"

fun statement_members :: "node \<Rightarrow> string list" where
  "statement_members (Assign ts v) = concat (map target_identifier ts)"
| "statement_members _ = []"

definition body_members :: "node list \<Rightarrow> string list" where
  "body_members stmts = concat (map statement_members stmts)"

text \<open>
  \<^verbatim>\<open>EnumCollectorVisitor\<close>. Its state is the dict \<^verbatim>\<open>self.enums\<close>, mutated in place, so a visit
  returns the dict as it stands when the visit ends, together with the exception that
  ended it, if one did. \<open>collector_visit\<close> is \<^verbatim>\<open>visit\<close> (with \<^verbatim>\<open>visit_ClassDef\<close> for a class
  and \<^verbatim>\<open>generic_visit\<close> for every other node); \<open>collector_visit_each\<close> is the loop of
  \<^verbatim>\<open>generic_visit\<close> over the child nodes, which an exception leaves at once.
\<close>

fun collector_visit :: "nat \<Rightarrow> enumdata \<Rightarrow> node \<Rightarrow> enumdata \<times> error option"
  and collector_visit_each :: "nat \<Rightarrow> enumdata \<Rightarrow> node list \<Rightarrow> enumdata \<times> error option" where
  "collector_visit room enums (ClassDef n bs ks b ds) =
     (if room = 0 then (enums, Some RecursionError)
      else if \<not> is_enum_class (ClassDef n bs ks b ds) then (enums, None)
      else case assignment_names (ClassDef n bs ks b ds) of
        Inl e \<Rightarrow> (enums, Some e)
      | Inr values \<Rightarrow>
          if n \<in> dom enums \<and> the (enums n) \<noteq> values
          then (enums, Some (DuplicateEnumClassError n))
          else collector_visit_each (room - 1) (enums(n \<mapsto> values)) (bs @ ks @ b @ ds))"
| "collector_visit room enums (Name i) =
     (if room = 0 then (enums, Some RecursionError) else (enums, None))"
| "collector_visit room enums (Attribute v a l) =
     (if room = 0 then (enums, Some RecursionError)
      else collector_visit_each (room - 1) enums [v])"
| "collector_visit room enums (Assign ts v) =
     (if room = 0 then (enums, Some RecursionError)
      else collector_visit_each (room - 1) enums (ts @ [v]))"
| "collector_visit room enums (Node c ns) =
     (if room = 0 then (enums, Some RecursionError)
      else collector_visit_each (room - 1) enums ns)"
| "collector_visit_each room enums [] = (enums, None)"
| "collector_visit_each room enums (x # xs) =
     (case collector_visit room enums x of
        (enums', Some e) \<Rightarrow> (enums', Some e)
      | (enums', None) \<Rightarrow> collector_visit_each room enums' xs)"


section \<open>Files, the parser and the log\<close>

text \<open>
  A file is its name with the text \<^verbatim>\<open>read()\<close> returns for it. The parser (\<^verbatim>\<open>ast.parse\<close>) is
  a collaborator outside the module, so it is a parameter: it gives the tree of a text,
  or the exception \<^verbatim>\<open>ast.parse\<close> raises on it (\<^verbatim>\<open>SyntaxError\<close> for a text that is not a
  program).
\<close>

type_synonym source_file = "string \<times> string"

type_synonym parser = "string \<Rightarrow> error + node"

text \<open>
  The logger is the list of the logging calls made so far, oldest first: the level of the
  call and its message, one constructor for each format string of the module, holding
  the arguments.
\<close>

datatype level = DEBUG | INFO | WARNING | CRITICAL

datatype message =
    Collecting_enums nat
  | Duplicate_class_name error
  | Duplicate_item error
  | Ignoring_syntax_error string
  | Enums_dump enumdata
  | Checking_enum_values nat
  | Checking_file string
  | Bad_line string int string
  | Errors_on_lines string nat nat
  | All_is_well
  | Found_bad_files nat

type_synonym logger = "(level \<times> message) list"

section \<open>Collecting the declarations of a file set\<close>

text \<open>
  The body of the \<^verbatim>\<open>try\<close> in \<^verbatim>\<open>collect_enums\<close>: parse the text, visit the tree with the one
  visitor shared by all files.
\<close>

definition collect_file ::
  "parser \<Rightarrow> nat \<Rightarrow> enumdata \<Rightarrow> source_file \<Rightarrow> enumdata \<times> error option" where
  "collect_file parse room enums f =
     (case parse (snd f) of
        Inl e \<Rightarrow> (enums, Some e)
      | Inr tree \<Rightarrow> collector_visit room enums tree)"

text \<open>
  The three \<^verbatim>\<open>except\<close> clauses: the warning logged for an exception they catch, \<open>None\<close>
  for an exception they let through.
\<close>

fun collect_except :: "string \<Rightarrow> error \<Rightarrow> (level \<times> message) option" where
  "collect_except fn (DuplicateEnumClassError n) =
     Some (WARNING, Duplicate_class_name (DuplicateEnumClassError n))"
| "collect_except fn (DuplicateEnumItemError n) =
     Some (WARNING, Duplicate_item (DuplicateEnumItemError n))"
| "collect_except fn SyntaxError = Some (WARNING, Ignoring_syntax_error fn)"
| "collect_except fn _ = None"

fun collect_enums_loop ::
  "parser \<Rightarrow> nat \<Rightarrow> enumdata \<Rightarrow> logger \<Rightarrow> source_file list \<Rightarrow> logger \<times> (error + enumdata)" where
  "collect_enums_loop parse room enums log [] = (log, Inr enums)"
| "collect_enums_loop parse room enums log (f # fs) =
     (case collect_file parse room enums f of
        (enums', None) \<Rightarrow> collect_enums_loop parse room enums' log fs
      | (enums', Some e) \<Rightarrow>
          (case collect_except (fst f) e of
             Some w \<Rightarrow> collect_enums_loop parse room enums' (log @ [w]) fs
           | None \<Rightarrow> (log, Inl e)))"

definition collect_enums ::
  "parser \<Rightarrow> nat \<Rightarrow> source_file list \<Rightarrow> logger \<Rightarrow> logger \<times> (error + enumdata)" where
  "collect_enums parse room files log =
     (case collect_enums_loop parse room Map.empty
             (log @ [(INFO, Collecting_enums (length files))]) files of
        (log', Inl e) \<Rightarrow> (log', Inl e)
      | (log', Inr enums) \<Rightarrow> (log' @ [(DEBUG, Enums_dump enums)], Inr enums))"

section \<open>Usage scanner\<close>

text \<open>
  \<^verbatim>\<open>EnumCheckerVisitor\<close>. Its state is the list \<^verbatim>\<open>self.badnodes\<close>; the dict \<^verbatim>\<open>self.enums\<close> is only
  read. The class attribute \<^verbatim>\<open>oklist\<close> is computed from the \<^verbatim>\<open>Enum\<close> class of the standard
  library (\<^verbatim>\<open>set(dir(Enum)) | set(vars(Enum))\<close>), which is not part of the module, so it is
  a parameter. \<open>checker_visit\<close> is \<^verbatim>\<open>visit\<close>: \<^verbatim>\<open>visit_Attribute\<close> on an attribute access,
  \<^verbatim>\<open>generic_visit\<close> on every other node; \<open>checker_visit_each\<close> is the loop of
  \<^verbatim>\<open>generic_visit\<close> over the child nodes. A visit returns the list as it stands when the
  visit ends, or the exception that ended it; nothing catches that exception, so the list
  it leaves behind is never read.
\<close>

fun checker_visit :: "nat \<Rightarrow> enumdata \<Rightarrow> string set \<Rightarrow> node \<Rightarrow> node list \<Rightarrow> error + node list"
  and checker_visit_each ::
    "nat \<Rightarrow> enumdata \<Rightarrow> string set \<Rightarrow> node list \<Rightarrow> node list \<Rightarrow> error + node list" where
  "checker_visit room enums oklist (Attribute v a l) badnodes =
     (if room = 0 then Inl RecursionError
      else if is_Name v \<or> is_Attribute v then
        let enumclassname = (if is_Name v then name_id v else attr v);
            badnodes' =
              (if enumclassname \<in> dom enums \<and> a \<notin> the (enums enumclassname) \<and> a \<notin> oklist
               then badnodes @ [Attribute v a l] else badnodes)
        in checker_visit_each (room - 1) enums oklist [v] badnodes'
      else Inr badnodes)"
| "checker_visit room enums oklist (Name i) badnodes =
     (if room = 0 then Inl RecursionError else Inr badnodes)"
| "checker_visit room enums oklist (ClassDef n bs ks b ds) badnodes =
     (if room = 0 then Inl RecursionError
      else checker_visit_each (room - 1) enums oklist (bs @ ks @ b @ ds) badnodes)"
| "checker_visit room enums oklist (Assign ts v) badnodes =
     (if room = 0 then Inl RecursionError
      else checker_visit_each (room - 1) enums oklist (ts @ [v]) badnodes)"
| "checker_visit room enums oklist (Node c ns) badnodes =
     (if room = 0 then Inl RecursionError
      else checker_visit_each (room - 1) enums oklist ns badnodes)"
| "checker_visit_each room enums oklist [] badnodes = Inr badnodes"
| "checker_visit_each room enums oklist (x # xs) badnodes =
     (case checker_visit room enums oklist x badnodes of
        Inl e \<Rightarrow> Inl e
      | Inr badnodes' \<Rightarrow> checker_visit_each room enums oklist xs badnodes')"

text \<open>
  The nodes that \<^verbatim>\<open>visit\<close> is called on when the scanner visits a tree, in the order of
  the calls: the tree, then the nodes visited from its children. \<^verbatim>\<open>visit_Attribute\<close>
  goes on to the child (\<^verbatim>\<open>generic_visit\<close>) only when the base is a \<^verbatim>\<open>Name\<close> or an
  \<^verbatim>\<open>Attribute\<close>.
\<close>

fun checker_visited :: "node \<Rightarrow> node list"
  and checker_visited_each :: "node list \<Rightarrow> node list" where
  "checker_visited (Attribute v a l) =
     Attribute v a l # (if is_Name v \<or> is_Attribute v then checker_visited_each [v] else [])"
| "checker_visited (Name i) = [Name i]"
| "checker_visited (ClassDef n bs ks b ds) =
     ClassDef n bs ks b ds # checker_visited_each (bs @ ks @ b @ ds)"
| "checker_visited (Assign ts v) = Assign ts v # checker_visited_each (ts @ [v])"
| "checker_visited (Node c ns) = Node c ns # checker_visited_each ns"
| "checker_visited_each [] = []"
| "checker_visited_each (x # xs) = checker_visited x @ checker_visited_each xs"

text \<open>
  The condition for a flagged access, as the description of the scanner words it: the
  candidate class name is the identifier when the base is a plain identifier and the
  member text of the base when the base is itself an attribute access; the access is
  flagged when the candidate is a key of the registry and the member is neither in the
  registered member set of that class nor in the allow-list.
\<close>

definition candidate_class_name :: "node \<Rightarrow> string option" where
  "candidate_class_name base =
     (case base of Name i \<Rightarrow> Some i | Attribute v a l \<Rightarrow> Some a | _ \<Rightarrow> None)"

definition flagged_access :: "enumdata \<Rightarrow> string set \<Rightarrow> node \<Rightarrow> bool" where
  "flagged_access enums oklist n =
     (case n of
        Attribute base member l \<Rightarrow>
          (case candidate_class_name base of
             None \<Rightarrow> False
           | Some cls \<Rightarrow>
               (case enums cls of
                  None \<Rightarrow> False
                | Some members \<Rightarrow> member \<notin> members \<and> member \<notin> oklist))
      | _ \<Rightarrow> False)"

section \<open>Report builder\<close>

text \<open>
  \<^verbatim>\<open>EnumChecker\<close>: the visitor's dict and bad nodes, the file name and the text of the file
  checked last.
\<close>

record enum_checker =
  visitor_enums :: enumdata
  visitor_badnodes :: "node list"
  filename :: "string option"
  code :: string

definition EnumChecker :: "enumdata \<Rightarrow> enum_checker" where
  "EnumChecker enumdata =
     \<lparr>visitor_enums = enumdata, visitor_badnodes = [], filename = None, code = []\<rparr>"

definition checkfile ::
  "parser \<Rightarrow> nat \<Rightarrow> string set \<Rightarrow> enum_checker \<Rightarrow> source_file \<Rightarrow> error + enum_checker" where
  "checkfile parse room oklist chk f =
     (let chk1 = chk\<lparr>filename := Some (fst f), code := snd f, visitor_badnodes := []\<rparr> in
      case parse (code chk1) of
        Inl e \<Rightarrow> Inl e
      | Inr tree \<Rightarrow>
          (case checker_visit room (visitor_enums chk1) oklist tree (visitor_badnodes chk1) of
             Inl e \<Rightarrow> Inl e
           | Inr badnodes \<Rightarrow> Inr (chk1\<lparr>visitor_badnodes := badnodes\<rparr>)))"

definition summary :: "enum_checker \<Rightarrow> nat \<times> nat" where
  "summary chk =
     (let nodecount = length (visitor_badnodes chk);
          linecount = card (set (map lineno (visitor_badnodes chk)))
      in (nodecount, linecount))"

text \<open>
  \<^verbatim>\<open>str.split(sep)\<close> with a separator: the pieces between the occurrences of \<open>sep\<close>, found
  from the left and not overlapping; an empty separator raises \<^verbatim>\<open>ValueError\<close>. \<open>cur\<close> is the
  piece being read.
\<close>

fun split_from :: "string \<Rightarrow> string \<Rightarrow> string \<Rightarrow> string list" where
  "split_from sep cur [] = [cur]"
| "split_from sep cur (c # cs) =
     (if sep \<noteq> [] \<and> take (length sep) (c # cs) = sep
      then cur # split_from sep [] (drop (length sep) (c # cs))
      else split_from sep (cur @ [c]) cs)"

definition str_split :: "string \<Rightarrow> string \<Rightarrow> error + string list" where
  "str_split s sep = (if sep = [] then Inl ValueError else Inr (split_from sep [] s))"


text \<open>List indexing \<^verbatim>\<open>xs[i]\<close>: a negative index counts from the end, an index out of range raises.\<close>

definition getitem :: "'a list \<Rightarrow> int \<Rightarrow> error + 'a" where
  "getitem xs i =
     (if 0 \<le> i \<and> i < int (length xs) then Inr (xs ! nat i)
      else if i < 0 \<and> - int (length xs) \<le> i then Inr (xs ! nat (int (length xs) + i))
      else Inl IndexError)"

text \<open>
  \<^verbatim>\<open>results\<close> is a generator: its value is the list of the pairs it yields, and the exception
  that ends it early, if one does. \<open>results_loop\<close> is its \<^verbatim>\<open>for\<close> loop; \<open>linesep\<close> is
  \<^verbatim>\<open>os.linesep\<close>, a constant of the platform.
\<close>

fun results_loop :: "string list \<Rightarrow> node list \<Rightarrow> (int \<times> string) list \<times> error option" where
  "results_loop codelines [] = ([], None)"
| "results_loop codelines (badnode # rest) =
     (case getitem codelines (lineno badnode - 1) of
        Inl e \<Rightarrow> ([], Some e)
      | Inr line \<Rightarrow>
          (case results_loop codelines rest of
             (ys, e) \<Rightarrow> ((lineno badnode, line) # ys, e)))"

definition results :: "string \<Rightarrow> enum_checker \<Rightarrow> (int \<times> string) list \<times> error option" where
  "results linesep chk =
     (if visitor_badnodes chk = [] then ([], None)
      else let suspectlines = map lineno (visitor_badnodes chk) in
        if suspectlines = [] then ([], None)
        else case str_split (code chk) linesep of
          Inl e \<Rightarrow> ([], Some e)
        | Inr codelines \<Rightarrow> results_loop codelines (visitor_badnodes chk))"

section \<open>Checking the usages of a file set\<close>

text \<open>
  The loop of \<^verbatim>\<open>check_files\<close>, with the checker, the counter \<^verbatim>\<open>badfiles\<close> and the logger as
  its state. Nothing in the loop catches an exception: one raised by \<^verbatim>\<open>checkfile\<close> or by
  \<^verbatim>\<open>results\<close> ends \<^verbatim>\<open>check_files\<close>, after the lines logged so far.
\<close>

fun check_files_loop ::
  "parser \<Rightarrow> nat \<Rightarrow> string set \<Rightarrow> string \<Rightarrow> enum_checker \<Rightarrow> nat \<Rightarrow> logger \<Rightarrow> source_file list
     \<Rightarrow> logger \<times> (error + nat)" where
  "check_files_loop parse room oklist linesep chk badfiles log [] = (log, Inr badfiles)"
| "check_files_loop parse room oklist linesep chk badfiles log (f # fs) =
     (let log1 = log @ [(DEBUG, Checking_file (fst f))] in
      case checkfile parse room oklist chk f of
        Inl e \<Rightarrow> (log1, Inl e)
      | Inr chk' \<Rightarrow>
          (case results linesep chk' of
             (lines, r) \<Rightarrow>
               (let log2 = log1 @ map (\<lambda>(lineno, codeline). (INFO, Bad_line (fst f) lineno codeline)) lines in
                case r of
                  Some e \<Rightarrow> (log2, Inl e)
                | None \<Rightarrow>
                    (case summary chk' of
                       (nodecount, linecount) \<Rightarrow>
                         if nodecount \<noteq> 0
                         then check_files_loop parse room oklist linesep chk' (badfiles + 1)
                                (log2 @ [(WARNING, Errors_on_lines (fst f) nodecount linecount)]) fs
                         else check_files_loop parse room oklist linesep chk' badfiles log2 fs))))"

definition check_files ::
  "parser \<Rightarrow> nat \<Rightarrow> string set \<Rightarrow> string \<Rightarrow> source_file list \<Rightarrow> enumdata \<Rightarrow> logger
     \<Rightarrow> logger \<times> (error + nat)" where
  "check_files parse room oklist linesep files enums log =
     (case check_files_loop parse room oklist linesep (EnumChecker enums) 0
             (log @ [(INFO, Checking_enum_values (length files))]) files of
        (log', Inl e) \<Rightarrow> (log', Inl e)
      | (log', Inr badfiles) \<Rightarrow>
          (if badfiles = 0 then (log' @ [(INFO, All_is_well)], Inr badfiles)
           else (log' @ [(CRITICAL, Found_bad_files badfiles)], Inr badfiles)))"

section \<open>Properties of the declaration scanner\<close>

subsection \<open>Recognising an enumeration class\<close>

text \<open>
  Claim C7. \<open>is_enum_class\<close> is true exactly for a class declaration whose list of bases
  holds, at any position, the plain identifier \<^verbatim>\<open>Enum\<close>. It is false for every node that
  is not a class declaration, and for a class whose only base is a dotted path ending in
  \<^verbatim>\<open>Enum\<close> (such as \<^verbatim>\<open>enum.Enum\<close>), which is an attribute access and not a name.
\<close>

theorem is_enum_class_iff:
  "(is_enum_class nd \<longleftrightarrow> (\<exists>n bs ks b ds. nd = ClassDef n bs ks b ds \<and> Name ''Enum'' \<in> set bs))
   \<and> (\<not> is_ClassDef nd \<longrightarrow> \<not> is_enum_class nd)
   \<and> \<not> is_enum_class (ClassDef n' [Attribute (Name m) ''Enum'' l] ks' b' ds')"
proof -
  have base: "(is_Name x \<and> name_id x = ''Enum'') = (x = Name ''Enum'')" for x
    by (cases x) auto
  show ?thesis
    by (cases nd) (auto simp: list_ex_iff base)
qed

theorem is_enum_class_iff_witness: "is_enum_class (ClassDef ''Foo'' [Name ''Enum'', Name ''SomethingElse''] [] [Assign [Name ''x''] (Node ''Constant'' [])] [])
  \<and> \<not> is_enum_class (Node ''Module'' [])
  \<and> \<not> is_enum_class (ClassDef ''Foo'' [Attribute (Name ''enum'') ''Enum'' 1] [] [] [])"
  using is_enum_class_iff [of "ClassDef ''Foo'' [Name ''Enum'', Name ''SomethingElse''] [] [Assign [Name ''x''] (Node ''Constant'' [])] []"]
   is_enum_class_iff [of "Node ''Module'' []"]
  by simp

subsection \<open>Duplicate detection\<close>

text \<open>
  The counter built by \<open>Counter\<close> has one entry for each distinct name, holding the
  number of its occurrences.
\<close>

lemma map_of_counter_add:
  "map_of (counter_add kcs x) k =
     (if k = x then Some (case map_of kcs x of None \<Rightarrow> 1 | Some c \<Rightarrow> Suc c) else map_of kcs k)"
  by (induction kcs x rule: counter_add.induct) auto

lemma keys_counter_add: "fst ` set (counter_add kcs x) = insert x (fst ` set kcs)"
  by (induction kcs x rule: counter_add.induct) auto

lemma distinct_counter_add:
  "distinct (map fst kcs) \<Longrightarrow> distinct (map fst (counter_add kcs x))"
proof (induction kcs x rule: counter_add.induct)
  case (1 x)
  then show ?case by simp
next
  case (2 k c kcs x)
  then show ?case
    using keys_counter_add [of kcs x] by (auto simp: image_iff)
qed

lemma Counter_snoc: "Counter (xs @ [x]) = counter_add (Counter xs) x"
  by (simp add: Counter_def)

lemma distinct_Counter: "distinct (map fst (Counter xs))"
  by (induction xs rule: rev_induct) (simp_all add: Counter_def distinct_counter_add)

lemma map_of_Counter:
  "map_of (Counter xs) k = (if k \<in> set xs then Some (count_list xs k) else None)"
proof (induction xs rule: rev_induct)
  case Nil
  then show ?case by (simp add: Counter_def)
next
  case (snoc x xs)
  then show ?case
    by (auto simp: Counter_snoc map_of_counter_add)
qed

lemma detect_duplicates_items_ok:
  "detect_duplicates_items kcs = Inr () \<longleftrightarrow> (\<forall>(k, c) \<in> set kcs. c \<le> 1)"
  by (induction kcs rule: detect_duplicates_items.induct) auto

lemma detect_duplicates_items_err:
  "detect_duplicates_items kcs = Inl e \<Longrightarrow> \<exists>k c. e = DuplicateEnumItemError k \<and> (k, c) \<in> set kcs \<and> 1 < c"
  by (induction kcs rule: detect_duplicates_items.induct) (auto split: if_splits)

lemma in_Counter_iff: "(k, c) \<in> set (Counter xs) \<longleftrightarrow> k \<in> set xs \<and> c = count_list xs k"
proof -
  have "(k, c) \<in> set (Counter xs) \<longleftrightarrow> map_of (Counter xs) k = Some c"
    using distinct_Counter [of xs] by simp
  then show ?thesis
    by (auto simp: map_of_Counter)
qed

lemma distinct_count_list: "distinct xs \<longleftrightarrow> (\<forall>k \<in> set xs. count_list xs k \<le> 1)"
proof (induction xs)
  case Nil
  then show ?case by simp
next
  case (Cons x xs)
  have "count_list xs x = 0 \<longleftrightarrow> x \<notin> set xs"
    by (simp add: count_list_0_iff)
  then show ?case
    using Cons by (auto simp: le_Suc_eq)
qed

lemma detect_duplicates_ok: "detect_duplicates names = Inr () \<longleftrightarrow> distinct names"
  unfolding detect_duplicates_def detect_duplicates_items_ok distinct_count_list
  by (auto simp: in_Counter_iff)

lemma detect_duplicates_err:
  "detect_duplicates names = Inl e \<Longrightarrow> \<exists>k. e = DuplicateEnumItemError k \<and> 1 < count_list names k"
  unfolding detect_duplicates_def
  by (drule detect_duplicates_items_err) (auto simp: in_Counter_iff)

lemma is_Assign_iff: "is_Assign s \<longleftrightarrow> (\<exists>ts v. s = Assign ts v)"
  by (cases s) auto

lemma is_Name_iff: "is_Name t \<longleftrightarrow> (\<exists>x. t = Name x)"
  by (cases t) auto

subsection \<open>Member names of a class body\<close>

lemma assignment_names_ClassDef:
  "assignment_names (ClassDef n bs ks b ds) =
     (case detect_duplicates (target_names b) of
        Inl e \<Rightarrow> Inl e
      | Inr u \<Rightarrow> Inr (set (target_names b)))"
  by (simp add: assignment_names_def Let_def)

text \<open>The comprehensions of the code collect the members of the body, in the same order.\<close>

lemma names_of_targets: "map name_id (filter is_Name ts) = concat (map target_identifier ts)"
proof (induction ts)
  case Nil
  show ?case by simp
next
  case (Cons t ts)
  then show ?case by (cases t) simp_all
qed

lemma target_names_Cons:
  "target_names (s # stmts) = statement_members s @ target_names stmts"
proof (cases s)
  case (Assign ts v)
  then show ?thesis
    by (simp add: target_names_def assignment_targets_def names_of_targets)
qed (simp_all add: target_names_def assignment_targets_def)

lemma target_names_body_members: "target_names stmts = body_members stmts"
proof (induction stmts)
  case Nil
  show ?case by (simp add: target_names_def assignment_targets_def body_members_def)
next
  case (Cons s stmts)
  then show ?case by (simp add: target_names_Cons body_members_def)
qed

lemma set_target_identifier: "x \<in> set (target_identifier t) \<longleftrightarrow> t = Name x"
  by (cases t) auto

lemma set_statement_members:
  "x \<in> set (statement_members s) \<longleftrightarrow> (\<exists>ts v. s = Assign ts v \<and> Name x \<in> set ts)"
  by (cases s) (auto simp: set_target_identifier)

lemma set_body_members:
  "set (body_members b) = {x. \<exists>ts v. Assign ts v \<in> set b \<and> Name x \<in> set ts}"
  by (auto simp: body_members_def set_statement_members) blast+

text \<open>
  Claim C5. Take the body of a class and list, statement by statement, the plain
  identifiers among the targets of its direct assignment statements (\<open>body_members\<close>).
  When no identifier occurs twice in that list, \<open>assignment_names\<close> returns exactly the
  set of those identifiers: every target of a chained assignment counts, a target that is
  not a plain identifier and a statement that is not an assignment add nothing. When an
  identifier does occur twice, it raises \<^verbatim>\<open>DuplicateEnumItemError\<close> naming an identifier
  that occurs more than once.
\<close>

theorem assignment_names_exact:
  "(distinct (body_members b) \<longrightarrow>
      assignment_names (ClassDef n bs ks b ds) = Inr (set (body_members b)))
   \<and> (\<not> distinct (body_members b) \<longrightarrow>
      (\<exists>x. assignment_names (ClassDef n bs ks b ds) = Inl (DuplicateEnumItemError x)
         \<and> 1 < count_list (body_members b) x))
   \<and> set (body_members b) = {x. \<exists>ts v. Assign ts v \<in> set b \<and> Name x \<in> set ts}"
proof (intro conjI impI)
  assume "distinct (body_members b)"
  then have "detect_duplicates (target_names b) = Inr ()"
    by (simp add: detect_duplicates_ok target_names_body_members)
  then show "assignment_names (ClassDef n bs ks b ds) = Inr (set (body_members b))"
    by (simp add: assignment_names_ClassDef target_names_body_members)
next
  assume "\<not> distinct (body_members b)"
  then have "detect_duplicates (target_names b) \<noteq> Inr ()"
    by (simp add: detect_duplicates_ok target_names_body_members)
  then obtain e where e: "detect_duplicates (target_names b) = Inl e"
    by (cases "detect_duplicates (target_names b)") auto
  from detect_duplicates_err [OF e] obtain x where
    "e = DuplicateEnumItemError x" "1 < count_list (target_names b) x" by blast
  with e show "\<exists>x. assignment_names (ClassDef n bs ks b ds) = Inl (DuplicateEnumItemError x)
      \<and> 1 < count_list (body_members b) x"
    by (auto simp: assignment_names_ClassDef target_names_body_members)
next
  show "set (body_members b) = {x. \<exists>ts v. Assign ts v \<in> set b \<and> Name x \<in> set ts}"
    by (rule set_body_members)
qed

text \<open>
  The class of the module's own test, \<^verbatim>\<open>x = y = r.s = "xy"\<close>, \<^verbatim>\<open>z = "z"\<close> and a method that
  assigns \<^verbatim>\<open>var\<close>, has the members \<^verbatim>\<open>x\<close>, \<^verbatim>\<open>y\<close>, \<^verbatim>\<open>z\<close>; a body that assigns \<^verbatim>\<open>a\<close> twice is
  refused, naming \<^verbatim>\<open>a\<close>.
\<close>

theorem assignment_names_exact_witness:
  "assignment_names (ClassDef ''Foo'' [Name ''Enum''] []
      [Assign [Name ''x'', Name ''y'', Attribute (Name ''r'') ''s'' 3] (Node ''Constant'' []),
       Assign [Name ''z''] (Node ''Constant'' []),
       Node ''FunctionDef'' [Node ''arguments'' [], Assign [Name ''var''] (Node ''Constant'' [])]] [])
     = Inr {''x'', ''y'', ''z''}
   \<and> assignment_names (ClassDef ''Foo'' [Name ''Enum''] []
      [Assign [Name ''a''] (Node ''Constant'' []), Assign [Name ''a''] (Node ''Constant'' [])] [])
     = Inl (DuplicateEnumItemError ''a'')"
proof -
  let ?b = "[Assign [Name ''x'', Name ''y'', Attribute (Name ''r'') ''s'' 3] (Node ''Constant'' []),
       Assign [Name ''z''] (Node ''Constant'' []),
       Node ''FunctionDef'' [Node ''arguments'' [], Assign [Name ''var''] (Node ''Constant'' [])]]"
  let ?d = "[Assign [Name ''a''] (Node ''Constant'' []), Assign [Name ''a''] (Node ''Constant'' [])]"
  have b: "body_members ?b = [''x'', ''y'', ''z'']"
    by (simp add: body_members_def)
  have d: "body_members ?d = [''a'', ''a'']"
    by (simp add: body_members_def)
  have 1: "assignment_names (ClassDef ''Foo'' [Name ''Enum''] [] ?b []) = Inr {''x'', ''y'', ''z''}"
    using assignment_names_exact [of ?b "''Foo''" "[Name ''Enum'']" "[]" "[]"]
    unfolding b by simp
  have "\<exists>x. assignment_names (ClassDef ''Foo'' [Name ''Enum''] [] ?d []) = Inl (DuplicateEnumItemError x)
      \<and> 1 < count_list [''a'', ''a''] x"
    using assignment_names_exact [of ?d "''Foo''" "[Name ''Enum'']" "[]" "[]"]
    unfolding d by simp
  then obtain x where x: "assignment_names (ClassDef ''Foo'' [Name ''Enum''] [] ?d []) = Inl (DuplicateEnumItemError x)"
    "1 < count_list [''a'', ''a''] x" by blast
  from x(2) have "x = ''a''"
    by (cases "x = ''a''") simp_all
  with x(1) 1 show ?thesis by simp
qed

section \<open>Properties of the collector\<close>

subsection \<open>Entries of the registry are never changed\<close>

text \<open>
  A visit only adds entries: \<^verbatim>\<open>self.enums[node.name] = values\<close> runs only when the name is new
  or already bound to the same set. This holds whether or not the visit ends in an
  exception.
\<close>

lemma collector_visit_keeps:
  "enums \<subseteq>\<^sub>m fst (collector_visit room enums t)"
  "enums \<subseteq>\<^sub>m fst (collector_visit_each room enums ts)"
proof (induction room enums t and room enums ts rule: collector_visit_collector_visit_each.induct)
  case (1 room enums n bs ks b ds)
  show ?case
  proof (cases "room = 0 \<or> \<not> is_enum_class (ClassDef n bs ks b ds)")
    case True
    then show ?thesis by auto
  next
    case False
    then have room: "room \<noteq> 0" and enum: "is_enum_class (ClassDef n bs ks b ds)"
      by simp_all
    show ?thesis
    proof (cases "assignment_names (ClassDef n bs ks b ds)")
      case (Inl e)
      with room enum show ?thesis by simp
    next
      case (Inr vs)
      show ?thesis
      proof (cases "n \<in> dom enums \<and> the (enums n) \<noteq> vs")
        case True
        with room enum Inr show ?thesis by simp
      next
        case False
        then have "enums \<subseteq>\<^sub>m enums(n \<mapsto> vs)"
          by (auto simp: map_le_def)
        moreover have "enums(n \<mapsto> vs) \<subseteq>\<^sub>m
            fst (collector_visit_each (room - 1) (enums(n \<mapsto> vs)) (bs @ ks @ b @ ds))"
          using "1.IH" [OF room _ Inr False] enum by blast
        ultimately show ?thesis
          using room enum Inr False by (simp add: map_le_trans)
      qed
    qed
  qed
next
  case (7 room enums x xs)
  obtain e1 r where v: "collector_visit room enums x = (e1, r)"
    by (cases "collector_visit room enums x")
  have 1: "enums \<subseteq>\<^sub>m e1"
    using "7.IH"(1) v by simp
  show ?case
  proof (cases r)
    case None
    then have "e1 \<subseteq>\<^sub>m fst (collector_visit_each room e1 xs)"
      using "7.IH"(2) v by simp
    with 1 show ?thesis
      using v None by (simp add: map_le_trans)
  next
    case (Some e)
    with 1 v show ?thesis by simp
  qed
qed simp_all

lemma collector_visit_keeps_entry:
  assumes "collector_visit room enums t = (enums', r)" "enums k = Some vs"
  shows "enums' k = Some vs"
  using collector_visit_keeps(1) [of enums room t] assms
  by (auto simp: map_le_def dom_def)


subsection \<open>The call stack\<close>



subsection \<open>A class name that is already registered\<close>

text \<open>
  Claim C6. When the collector visits an enumeration class whose name is already in the
  registry (and the stack has room for the visit): if the member set just computed is
  the registered one, the assignment into the registry changes nothing and the visit
  goes on into the children of the class from the same registry, raising nothing itself,
  and the entry of the class is the same when the visit ends; if the sets differ, the
  visit raises \<^verbatim>\<open>DuplicateEnumClassError\<close> with the class name and leaves the registry as it
  was, so the entry keeps the earlier set.
\<close>

theorem visit_ClassDef_redeclaration:
  "(0 < room \<and> is_enum_class (ClassDef n bs ks b ds)
      \<and> assignment_names (ClassDef n bs ks b ds) = Inr vs \<and> enums n = Some vs \<longrightarrow>
      enums(n \<mapsto> vs) = enums
      \<and> collector_visit room enums (ClassDef n bs ks b ds)
          = collector_visit_each (room - 1) enums (bs @ ks @ b @ ds)
      \<and> fst (collector_visit room enums (ClassDef n bs ks b ds)) n = Some vs)
   \<and> (0 < room \<and> is_enum_class (ClassDef n bs ks b ds)
      \<and> assignment_names (ClassDef n bs ks b ds) = Inr vs
      \<and> enums n = Some old \<and> old \<noteq> vs \<longrightarrow>
      collector_visit room enums (ClassDef n bs ks b ds)
        = (enums, Some (DuplicateEnumClassError n)))"
proof (intro conjI impI)
  assume a: "0 < room \<and> is_enum_class (ClassDef n bs ks b ds)
      \<and> assignment_names (ClassDef n bs ks b ds) = Inr vs \<and> enums n = Some vs"
  then show u: "enums(n \<mapsto> vs) = enums"
    by (simp add: map_upd_triv)
  from a have "collector_visit room enums (ClassDef n bs ks b ds) =
      collector_visit_each (room - 1) (enums(n \<mapsto> vs)) (bs @ ks @ b @ ds)"
    by (simp add: domI del: fun_upd_apply)
  then show v: "collector_visit room enums (ClassDef n bs ks b ds)
      = collector_visit_each (room - 1) enums (bs @ ks @ b @ ds)"
    by (simp only: u)
  obtain e r where "collector_visit room enums (ClassDef n bs ks b ds) = (e, r)"
    by (cases "collector_visit room enums (ClassDef n bs ks b ds)")
  with a collector_visit_keeps_entry [OF this, of n vs]
  show "fst (collector_visit room enums (ClassDef n bs ks b ds)) n = Some vs"
    by simp
next
  assume "0 < room \<and> is_enum_class (ClassDef n bs ks b ds)
      \<and> assignment_names (ClassDef n bs ks b ds) = Inr vs
      \<and> enums n = Some old \<and> old \<noteq> vs"
  then show "collector_visit room enums (ClassDef n bs ks b ds)
      = (enums, Some (DuplicateEnumClassError n))"
    by (simp add: domI)
qed

theorem visit_ClassDef_redeclaration_witness:
  "collector_visit 1000 [''Bar'' \<mapsto> {''x''}]
      (ClassDef ''Bar'' [Name ''Enum''] [] [Assign [Name ''x''] (Node ''Constant'' [])] [])
     = ([''Bar'' \<mapsto> {''x''}], None)
   \<and> collector_visit 1000 [''Bar'' \<mapsto> {''x''}]
      (ClassDef ''Bar'' [Name ''Enum''] [] [Assign [Name ''y''] (Node ''Constant'' [])] [])
     = ([''Bar'' \<mapsto> {''x''}], Some (DuplicateEnumClassError ''Bar''))"
proof -
  have a: "assignment_names (ClassDef ''Bar'' [Name ''Enum''] [] [Assign [Name ''x''] (Node ''Constant'' [])] [])
      = Inr {''x''}"
    by (simp add: assignment_names_def target_names_def assignment_targets_def
        detect_duplicates_def Counter_def)
  have b: "assignment_names (ClassDef ''Bar'' [Name ''Enum''] [] [Assign [Name ''y''] (Node ''Constant'' [])] [])
      = Inr {''y''}"
    by (simp add: assignment_names_def target_names_def assignment_targets_def
        detect_duplicates_def Counter_def)
  have 1: "collector_visit 1000 [''Bar'' \<mapsto> {''x''}]
      (ClassDef ''Bar'' [Name ''Enum''] [] [Assign [Name ''x''] (Node ''Constant'' [])] [])
     = collector_visit_each (1000 - 1) [''Bar'' \<mapsto> {''x''}]
         ([Name ''Enum''] @ [] @ [Assign [Name ''x''] (Node ''Constant'' [])] @ [])"
    using visit_ClassDef_redeclaration [where room = 1000 and n = "''Bar''"
        and bs = "[Name ''Enum'']" and ks = "[]"
        and b = "[Assign [Name ''x''] (Node ''Constant'' [])]" and ds = "[]" and vs = "{''x''}"
        and enums = "[''Bar'' \<mapsto> {''x''}]" and old = "{''x''}"] a
    by simp
  have 2: "collector_visit 1000 [''Bar'' \<mapsto> {''x''}]
      (ClassDef ''Bar'' [Name ''Enum''] [] [Assign [Name ''y''] (Node ''Constant'' [])] [])
     = ([''Bar'' \<mapsto> {''x''}], Some (DuplicateEnumClassError ''Bar''))"
    using visit_ClassDef_redeclaration [where room = 1000 and n = "''Bar''"
        and bs = "[Name ''Enum'']" and ks = "[]"
        and b = "[Assign [Name ''y''] (Node ''Constant'' [])]" and ds = "[]" and vs = "{''y''}"
        and enums = "[''Bar'' \<mapsto> {''x''}]" and old = "{''x''}"] b
    by simp
  show ?thesis
    unfolding 1 2 by simp
qed

subsection \<open>Where the collector looks for enumeration classes\<close>






subsection \<open>A file whose scan raises a duplicate error\<close>




section \<open>Properties of the usage scanner\<close>

subsection \<open>Which accesses are flagged\<close>

lemma flagged_access_Attribute:
  "is_Name v \<or> is_Attribute v \<Longrightarrow>
   flagged_access enums oklist (Attribute v a l) =
     ((if is_Name v then name_id v else attr v) \<in> dom enums
      \<and> a \<notin> the (enums (if is_Name v then name_id v else attr v)) \<and> a \<notin> oklist)"
  by (cases v) (auto simp: flagged_access_def candidate_class_name_def split: option.splits)

lemma flagged_access_other_base:
  "\<not> (is_Name v \<or> is_Attribute v) \<Longrightarrow> \<not> flagged_access enums oklist (Attribute v a l)"
  by (cases v) (auto simp: flagged_access_def candidate_class_name_def)

lemma flagged_access_not_Attribute [simp]:
  "\<not> flagged_access enums oklist (Name i)"
  "\<not> flagged_access enums oklist (ClassDef n bs ks b ds)"
  "\<not> flagged_access enums oklist (Assign ts v)"
  "\<not> flagged_access enums oklist (Node c ns)"
  by (simp_all add: flagged_access_def)

lemma checker_visit_filter:
  "case checker_visit room enums oklist t bad of
     Inl e \<Rightarrow> e = RecursionError \<and> room < tree_depth t
   | Inr bad' \<Rightarrow> bad' = bad @ filter (flagged_access enums oklist) (checker_visited t)"
  "case checker_visit_each room enums oklist ts bad of
     Inl e \<Rightarrow> e = RecursionError \<and> room < tree_depth_each ts
   | Inr bad' \<Rightarrow> bad' = bad @ filter (flagged_access enums oklist) (checker_visited_each ts)"
proof (induction room enums oklist t bad and room enums oklist ts bad
    rule: checker_visit_checker_visit_each.induct)
  case (1 room enums oklist v a l badnodes)
  show ?case
  proof (cases "room = 0")
    case True
    then show ?thesis by simp
  next
    case room: False
    show ?thesis
    proof (cases "is_Name v \<or> is_Attribute v")
      case False
      then show ?thesis
        using room flagged_access_other_base [of v enums oklist a l] by simp
    next
      case base: True
      define cls where "cls = (if is_Name v then name_id v else attr v)"
      define flag where "flag = (cls \<in> dom enums \<and> a \<notin> the (enums cls) \<and> a \<notin> oklist)"
      define bad' where "bad' = (if flag then badnodes @ [Attribute v a l] else badnodes)"
      have f: "flagged_access enums oklist (Attribute v a l) = flag"
        using flagged_access_Attribute [OF base] by (simp add: flag_def cls_def)
      have u: "checker_visit room enums oklist (Attribute v a l) badnodes
          = checker_visit_each (room - 1) enums oklist [v] bad'"
        using room base by (simp add: Let_def bad'_def flag_def cls_def)
      have ih: "case checker_visit_each (room - 1) enums oklist [v] bad' of
           Inl e \<Rightarrow> e = RecursionError \<and> room - 1 < tree_depth_each [v]
         | Inr bad'' \<Rightarrow>
             bad'' = bad' @ filter (flagged_access enums oklist) (checker_visited_each [v])"
        unfolding bad'_def flag_def cls_def
        by (rule "1.IH" [OF room base refl refl])
      show ?thesis
      proof (cases "checker_visit_each (room - 1) enums oklist [v] bad'")
        case (Inl e)
        with ih room show ?thesis
          unfolding u by (auto simp del: checker_visit_each.simps)
      next
        case (Inr bad'')
        with ih base f show ?thesis
          unfolding u
          by (simp add: bad'_def del: checker_visit_each.simps checker_visited_each.simps)
      qed
    qed
  qed
next
  case (7 room enums oklist x xs badnodes)
  show ?case
  proof (cases "checker_visit room enums oklist x badnodes")
    case (Inl e)
    with "7.IH"(1) show ?thesis by auto
  next
    case (Inr b1)
    with "7.IH"(1) have b1: "b1 = badnodes @ filter (flagged_access enums oklist) (checker_visited x)"
      by simp
    show ?thesis
    proof (cases "checker_visit_each room enums oklist xs b1")
      case l: (Inl e)
      with "7.IH"(2) [OF Inr] Inr show ?thesis by auto
    next
      case r: (Inr b2)
      with "7.IH"(2) [OF Inr] Inr b1 show ?thesis by auto
    qed
  qed
qed (auto split: sum.splits)

lemma checker_visit_Inr:
  "checker_visit room enums oklist t bad = Inr bad' \<Longrightarrow>
   bad' = bad @ filter (flagged_access enums oklist) (checker_visited t)"
  using checker_visit_filter(1) [where room = room and enums = enums and oklist = oklist
      and t = t and bad = bad]
  by simp

lemma checker_visit_Inl:
  "checker_visit room enums oklist t bad = Inl e \<Longrightarrow> e = RecursionError \<and> room < tree_depth t"
  using checker_visit_filter(1) [where room = room and enums = enums and oklist = oklist
      and t = t and bad = bad]
  by simp

lemma checker_visit_room:
  "tree_depth t \<le> room \<Longrightarrow>
   checker_visit room enums oklist t bad
     = Inr (bad @ filter (flagged_access enums oklist) (checker_visited t))"
  using checker_visit_filter(1) [where room = room and enums = enums and oklist = oklist
      and t = t and bad = bad]
  by (cases "checker_visit room enums oklist t bad") auto

text \<open>
  Claim C1. When a visit returns, the bad nodes after it are the bad nodes before it
  followed by the visited nodes that satisfy the flagging condition, in the order of the
  visit and once for each visit: a visited attribute access is recorded if and only if the
  condition holds for it, and no other node is recorded. The visit returns when the stack
  has room for the levels of the tree, and the only exception it can end with is
  \<^verbatim>\<open>RecursionError\<close>, on a tree with more levels than that. For an attribute access the
  condition is that the base is a plain identifier or an attribute access, that the
  candidate class name (the identifier, or the member text of the base) is a key of the
  registry, and that the member is neither in the registered set of that class nor in the
  allow-list; so an access whose candidate is not a key, whose member is registered or
  whose member is in the allow-list is not recorded.
\<close>

theorem visit_Attribute_flags_iff:
  "(checker_visit room enums oklist t bad = Inr bad' \<longrightarrow>
      bad' = bad @ filter (flagged_access enums oklist) (checker_visited t))
   \<and> (tree_depth t \<le> room \<longrightarrow>
      checker_visit room enums oklist t bad
        = Inr (bad @ filter (flagged_access enums oklist) (checker_visited t)))
   \<and> (checker_visit room enums oklist t bad = Inl e \<longrightarrow> e = RecursionError \<and> room < tree_depth t)
   \<and> (checker_visit room enums oklist (Attribute v a l) [] = Inr found \<longrightarrow>
        (Attribute v a l \<in> set found \<longleftrightarrow> flagged_access enums oklist (Attribute v a l)))
   \<and> (flagged_access enums oklist (Attribute v a l) \<longleftrightarrow>
        (\<exists>cls. (v = Name cls \<or> (\<exists>w k. v = Attribute w cls k))
           \<and> cls \<in> dom enums \<and> a \<notin> the (enums cls) \<and> a \<notin> oklist))"
proof (intro conjI impI)
  assume "checker_visit room enums oklist t bad = Inr bad'"
  then show "bad' = bad @ filter (flagged_access enums oklist) (checker_visited t)"
    by (rule checker_visit_Inr)
next
  assume "tree_depth t \<le> room"
  then show "checker_visit room enums oklist t bad
        = Inr (bad @ filter (flagged_access enums oklist) (checker_visited t))"
    by (rule checker_visit_room)
next
  assume "checker_visit room enums oklist t bad = Inl e"
  then show "e = RecursionError"
    using checker_visit_Inl by blast
next
  assume "checker_visit room enums oklist t bad = Inl e"
  then show "room < tree_depth t"
    using checker_visit_Inl by blast
next
  assume "checker_visit room enums oklist (Attribute v a l) [] = Inr found"
  then have "found = filter (flagged_access enums oklist) (checker_visited (Attribute v a l))"
    using checker_visit_Inr [of room enums oklist "Attribute v a l" "[]" found] by simp
  moreover have "Attribute v a l \<in> set (checker_visited (Attribute v a l))"
    by simp
  ultimately show "Attribute v a l \<in> set found \<longleftrightarrow> flagged_access enums oklist (Attribute v a l)"
    by (simp del: checker_visited.simps)
next
  show "flagged_access enums oklist (Attribute v a l) \<longleftrightarrow>
        (\<exists>cls. (v = Name cls \<or> (\<exists>w k. v = Attribute w cls k))
           \<and> cls \<in> dom enums \<and> a \<notin> the (enums cls) \<and> a \<notin> oklist)"
    by (cases v) (auto simp: flagged_access_def candidate_class_name_def split: option.splits)
qed

text \<open>
  With \<^verbatim>\<open>Foo\<close> registered with the members \<^verbatim>\<open>a\<close> and \<^verbatim>\<open>b\<close>: \<^verbatim>\<open>Foo.c\<close> and \<^verbatim>\<open>pkg.Foo.d\<close> are
  recorded, \<^verbatim>\<open>Foo.a\<close> (registered), \<^verbatim>\<open>Foo.name\<close> (allow-list) and \<^verbatim>\<open>Bar.x\<close> (not a key) are not.
\<close>

theorem visit_Attribute_flags_iff_witness:
  "checker_visit 1000 [''Foo'' \<mapsto> {''a'', ''b''}] {''name'', ''value''}
      (Node ''Module''
        [Node ''Expr'' [Attribute (Name ''Foo'') ''c'' 1],
         Node ''Expr'' [Attribute (Name ''Foo'') ''a'' 2],
         Node ''Expr'' [Attribute (Name ''Foo'') ''name'' 3],
         Node ''Expr'' [Attribute (Attribute (Name ''pkg'') ''Foo'' 4) ''d'' 4],
         Node ''Expr'' [Attribute (Name ''Bar'') ''x'' 5]]) []
     = Inr [Attribute (Name ''Foo'') ''c'' 1, Attribute (Attribute (Name ''pkg'') ''Foo'' 4) ''d'' 4]
   \<and> flagged_access [''Foo'' \<mapsto> {''a'', ''b''}] {''name'', ''value''} (Attribute (Name ''Foo'') ''c'' 1)
   \<and> \<not> flagged_access [''Foo'' \<mapsto> {''a'', ''b''}] {''name'', ''value''} (Attribute (Name ''Foo'') ''a'' 2)
   \<and> \<not> flagged_access [''Foo'' \<mapsto> {''a'', ''b''}] {''name'', ''value''} (Attribute (Name ''Foo'') ''name'' 3)
   \<and> \<not> flagged_access [''Foo'' \<mapsto> {''a'', ''b''}] {''name'', ''value''} (Attribute (Name ''Bar'') ''x'' 5)
   \<and> checker_visit 2 [''Foo'' \<mapsto> {''a'', ''b''}] {''name'', ''value''}
      (Node ''Module'' [Node ''Expr'' [Attribute (Name ''Foo'') ''c'' 1]]) []
     = Inl RecursionError"
proof -
  let ?t = "Node ''Module''
        [Node ''Expr'' [Attribute (Name ''Foo'') ''c'' 1],
         Node ''Expr'' [Attribute (Name ''Foo'') ''a'' 2],
         Node ''Expr'' [Attribute (Name ''Foo'') ''name'' 3],
         Node ''Expr'' [Attribute (Attribute (Name ''pkg'') ''Foo'' 4) ''d'' 4],
         Node ''Expr'' [Attribute (Name ''Bar'') ''x'' 5]]"
  have d: "tree_depth ?t \<le> 1000"
    by simp
  have "checker_visit 1000 [''Foo'' \<mapsto> {''a'', ''b''}] {''name'', ''value''} ?t []
      = Inr ([] @ filter (flagged_access [''Foo'' \<mapsto> {''a'', ''b''}] {''name'', ''value''})
          (checker_visited ?t))"
    using visit_Attribute_flags_iff [of 1000 "[''Foo'' \<mapsto> {''a'', ''b''}]" "{''name'', ''value''}"
      ?t "[]"] d by blast
  then show ?thesis
    by (simp add: flagged_access_def candidate_class_name_def)
qed

subsection \<open>An attribute access on a call result hides the accesses inside it\<close>

text \<open>
  Claim C3 says the traversal goes into the children of every attribute access it visits,
  whatever the shape of its base. The code does so only when the base is a name or an
  attribute access: on any other base, \<^verbatim>\<open>visit_Attribute\<close> returns before it reaches
  \<^verbatim>\<open>self.generic_visit(node)\<close>. With \<^verbatim>\<open>Foo\<close> registered with the members \<^verbatim>\<open>a\<close> and \<^verbatim>\<open>b\<close>, the
  statement \<^verbatim>\<open>Foo.c.lower().strip()\<close> is an attribute access (\<^verbatim>\<open>.strip\<close>) whose base is a call;
  the scanner flags nothing in it, although it flags \<^verbatim>\<open>Foo.c\<close> when it visits that access
  itself, and flags it in \<^verbatim>\<open>Foo.c.lower()\<close>, where no attribute access has a call as its
  base.
\<close>

theorem visit_Attribute_call_base_not_descended:
  "checker_visit 1000 [''Foo'' \<mapsto> {''a'', ''b''}] {''name'', ''value''}
     (Node ''Module'' [Node ''Expr'' [Node ''Call''
        [Attribute (Node ''Call'' [Attribute (Attribute (Name ''Foo'') ''c'' 1) ''lower'' 1])
           ''strip'' 1]]]) [] = Inr []
   \<and> checker_visit 1000 [''Foo'' \<mapsto> {''a'', ''b''}] {''name'', ''value''}
     (Attribute (Name ''Foo'') ''c'' 1) [] = Inr [Attribute (Name ''Foo'') ''c'' 1]
   \<and> checker_visit 1000 [''Foo'' \<mapsto> {''a'', ''b''}] {''name'', ''value''}
     (Node ''Module'' [Node ''Expr'' [Node ''Call''
        [Attribute (Attribute (Name ''Foo'') ''c'' 1) ''lower'' 1]]]) []
       = Inr [Attribute (Name ''Foo'') ''c'' 1]"
  by simp

section \<open>Properties of the report builder\<close>

subsection \<open>Indexing the lines and splitting the text\<close>

lemma getitem_line:
  "1 \<le> i \<Longrightarrow> i \<le> int (length xs) \<Longrightarrow> getitem xs (i - 1) = Inr (xs ! (nat i - 1))"
  by (simp add: getitem_def nat_diff_distrib)

lemma getitem_ok_iff:
  "(\<exists>x. getitem xs (i - 1) = Inr x) \<longleftrightarrow> 1 - int (length xs) \<le> i \<and> i \<le> int (length xs)"
  by (auto simp: getitem_def)

lemma results_loop_lines:
  "\<forall>n\<in>set bad. 1 \<le> lineno n \<and> lineno n \<le> int (length cl) \<Longrightarrow>
   results_loop cl bad = (map (\<lambda>n. (lineno n, cl ! (nat (lineno n) - 1))) bad, None)"
  by (induction bad) (simp_all add: getitem_line)

lemma results_loop_no_error_iff:
  "snd (results_loop cl bad) = None \<longleftrightarrow>
     (\<forall>n\<in>set bad. 1 - int (length cl) \<le> lineno n \<and> lineno n \<le> int (length cl))"
proof (induction bad)
  case Nil
  show ?case by simp
next
  case (Cons n bad)
  show ?case
  proof (cases "getitem cl (lineno n - 1)")
    case (Inl e)
    with getitem_ok_iff [of cl "lineno n"] show ?thesis by auto
  next
    case (Inr x)
    with getitem_ok_iff [of cl "lineno n"] Cons.IH show ?thesis
      by (auto split: prod.splits)
  qed
qed

lemma results_loop_error:
  "snd (results_loop cl bad) = Some e \<Longrightarrow> e = IndexError"
proof (induction bad)
  case Nil
  then show ?case by simp
next
  case (Cons n bad)
  then show ?case
    by (auto simp: getitem_def split: sum.splits prod.splits if_splits)
qed





lemma results_eq_loop:
  "linesep \<noteq> [] \<Longrightarrow>
   results linesep chk = results_loop (split_from linesep [] (code chk)) (visitor_badnodes chk)"
  by (simp add: results_def str_split_def Let_def)


subsection \<open>Summary and results of a checked file\<close>



subsection \<open>The index into the lines\<close>

text \<open>
  Claim C10. \<^verbatim>\<open>results\<close> indexes the list of the pieces of the text between the line
  separators at the line number minus 1, with no test of the range. When every bad node
  has a line number between 1 and the number of pieces, every such index is in range:
  the lookup gives the piece at that position and the results end with no exception. In
  general the results end with no exception exactly when every line number is in the
  range Python accepts for the index (from one minus the number of pieces to the number
  of pieces), and the only exception they can end with is \<^verbatim>\<open>IndexError\<close>.
\<close>

theorem results_index_in_bounds:
  "(linesep \<noteq> [] \<and>
      (\<forall>n\<in>set (visitor_badnodes chk).
          1 \<le> lineno n \<and> lineno n \<le> int (length (split_from linesep [] (code chk)))) \<longrightarrow>
      results linesep chk
        = (map (\<lambda>n. (lineno n, split_from linesep [] (code chk) ! (nat (lineno n) - 1)))
             (visitor_badnodes chk), None)
      \<and> (\<forall>n\<in>set (visitor_badnodes chk).
            getitem (split_from linesep [] (code chk)) (lineno n - 1)
              = Inr (split_from linesep [] (code chk) ! (nat (lineno n) - 1))))
   \<and> (linesep \<noteq> [] \<longrightarrow>
        (snd (results linesep chk) = None \<longleftrightarrow>
           (\<forall>n\<in>set (visitor_badnodes chk).
               1 - int (length (split_from linesep [] (code chk))) \<le> lineno n
               \<and> lineno n \<le> int (length (split_from linesep [] (code chk))))))
   \<and> (linesep \<noteq> [] \<and> snd (results linesep chk) \<noteq> None \<longrightarrow>
        snd (results linesep chk) = Some IndexError)"
proof (intro conjI impI ballI)
  assume a: "linesep \<noteq> [] \<and>
      (\<forall>n\<in>set (visitor_badnodes chk).
          1 \<le> lineno n \<and> lineno n \<le> int (length (split_from linesep [] (code chk))))"
  then show "results linesep chk
        = (map (\<lambda>n. (lineno n, split_from linesep [] (code chk) ! (nat (lineno n) - 1)))
             (visitor_badnodes chk), None)"
    using results_eq_loop [of linesep chk]
      results_loop_lines [of "visitor_badnodes chk" "split_from linesep [] (code chk)"]
    by simp
  fix n assume "n \<in> set (visitor_badnodes chk)"
  with a show "getitem (split_from linesep [] (code chk)) (lineno n - 1)
              = Inr (split_from linesep [] (code chk) ! (nat (lineno n) - 1))"
    by (intro getitem_line) simp_all
next
  assume "linesep \<noteq> []"
  then show "snd (results linesep chk) = None \<longleftrightarrow>
           (\<forall>n\<in>set (visitor_badnodes chk).
               1 - int (length (split_from linesep [] (code chk))) \<le> lineno n
               \<and> lineno n \<le> int (length (split_from linesep [] (code chk))))"
    using results_eq_loop [of linesep chk]
      results_loop_no_error_iff [of "split_from linesep [] (code chk)" "visitor_badnodes chk"]
    by simp
next
  assume a: "linesep \<noteq> [] \<and> snd (results linesep chk) \<noteq> None"
  then obtain e where "snd (results linesep chk) = Some e"
    by auto
  with a results_eq_loop [of linesep chk]
    results_loop_error [of "split_from linesep [] (code chk)" "visitor_badnodes chk" e]
  show "snd (results linesep chk) = Some IndexError"
    by simp
qed

text \<open>
  A text of two lines separated by carriage return and line feed, with bad nodes on
  lines 2 and 1; and the same separator on a text that has only a line feed, where the
  text is one piece and line 2 is out of range.
\<close>

theorem results_index_in_bounds_witness:
  "results [CHR 0x0D, CHR 0x0A]
      \<lparr>visitor_enums = [''Foo'' \<mapsto> {''a''}],
       visitor_badnodes = [Attribute (Name ''Foo'') ''c'' 2, Attribute (Name ''Foo'') ''d'' 1],
       filename = Some ''t.py'',
       code = ''Foo.d'' @ [CHR 0x0D, CHR 0x0A] @ ''Foo.c''\<rparr>
     = ([(2, ''Foo.c''), (1, ''Foo.d'')], None)
   \<and> results [CHR 0x0D, CHR 0x0A]
      \<lparr>visitor_enums = [''Foo'' \<mapsto> {''a''}],
       visitor_badnodes = [Attribute (Name ''Foo'') ''d'' 1, Attribute (Name ''Foo'') ''c'' 2],
       filename = Some ''t.py'',
       code = ''Foo.d'' @ [CHR 0x0A] @ ''Foo.c''\<rparr>
     = ([(1, ''Foo.d'' @ [CHR 0x0A] @ ''Foo.c'')], Some IndexError)"
proof -
  have s: "split_from [CHR 0x0D, CHR 0x0A] [] (''Foo.d'' @ [CHR 0x0D, CHR 0x0A] @ ''Foo.c'')
      = [''Foo.d'', ''Foo.c'']"
    by simp
  have "results [CHR 0x0D, CHR 0x0A]
      \<lparr>visitor_enums = [''Foo'' \<mapsto> {''a''}],
       visitor_badnodes = [Attribute (Name ''Foo'') ''c'' 2, Attribute (Name ''Foo'') ''d'' 1],
       filename = Some ''t.py'',
       code = ''Foo.d'' @ [CHR 0x0D, CHR 0x0A] @ ''Foo.c''\<rparr>
     = ([(2, ''Foo.c''), (1, ''Foo.d'')], None)"
    using results_index_in_bounds [of "[CHR 0x0D, CHR 0x0A]"
        "\<lparr>visitor_enums = [''Foo'' \<mapsto> {''a''}],
       visitor_badnodes = [Attribute (Name ''Foo'') ''c'' 2, Attribute (Name ''Foo'') ''d'' 1],
       filename = Some ''t.py'',
       code = ''Foo.d'' @ [CHR 0x0D, CHR 0x0A] @ ''Foo.c''\<rparr>"] s
    by simp
  moreover have "results [CHR 0x0D, CHR 0x0A]
      \<lparr>visitor_enums = [''Foo'' \<mapsto> {''a''}],
       visitor_badnodes = [Attribute (Name ''Foo'') ''d'' 1, Attribute (Name ''Foo'') ''c'' 2],
       filename = Some ''t.py'',
       code = ''Foo.d'' @ [CHR 0x0A] @ ''Foo.c''\<rparr>
     = ([(1, ''Foo.d'' @ [CHR 0x0A] @ ''Foo.c'')], Some IndexError)"
    by (simp add: results_def str_split_def getitem_def)
  ultimately show ?thesis by simp
qed

section \<open>Properties of the two phases\<close>

subsection \<open>A file that does not parse\<close>

text \<open>
  Claim C2 says both phases catch the parse failure of a file, log it and go on. The
  collection phase does: its loop has an \<^verbatim>\<open>except SyntaxError\<close> clause. The checking phase
  does not: \<^verbatim>\<open>check_files\<close> calls \<^verbatim>\<open>checkfile\<close>, which calls \<^verbatim>\<open>ast.parse\<close>, outside any \<^verbatim>\<open>try\<close>.
  With a parser that refuses the text \<^verbatim>\<open>def (\<close>, and the files \<^verbatim>\<open>bad.py\<close> (that text) and
  \<^verbatim>\<open>good.py\<close>, collection logs one warning for \<^verbatim>\<open>bad.py\<close> and returns the registry, while
  checking ends with \<^verbatim>\<open>SyntaxError\<close> at \<^verbatim>\<open>bad.py\<close> and never reaches \<^verbatim>\<open>good.py\<close>.
\<close>

theorem check_files_aborts_on_syntax_error:
  "collect_enums (\<lambda>text. if text = ''def ('' then Inl SyntaxError else Inr (Node ''Module'' []))
      1000 [(''bad.py'', ''def (''), (''good.py'', ''pass'')] []
     = ([(INFO, Collecting_enums 2), (WARNING, Ignoring_syntax_error ''bad.py''),
         (DEBUG, Enums_dump Map.empty)], Inr Map.empty)
   \<and> check_files (\<lambda>text. if text = ''def ('' then Inl SyntaxError else Inr (Node ''Module'' []))
      1000 {''name'', ''value''} [CHR 0x0A] [(''bad.py'', ''def (''), (''good.py'', ''pass'')] Map.empty []
     = ([(INFO, Checking_enum_values 2), (DEBUG, Checking_file ''bad.py'')], Inl SyntaxError)"
  by (simp add: collect_enums_def collect_file_def check_files_def checkfile_def EnumChecker_def)

end
